theory Spec2Isabelle
  imports Complex_Main
begin

section \<open>The parallel Differential Evolution engine of pdebc\<close>

text \<open>
  A shallow embedding of \<^verbatim>\<open>ThreadsDESolver.hpp\<close> (the per-thread Solver) and of
  \<^verbatim>\<open>ThreadsDE.hpp\<close> (the Coordinator).

  \<^item> \<^verbatim>\<open>POP_TYPE\<close> is a type \<open>'a\<close> with \<open>+\<close>, \<open>-\<close> and \<open>*\<close> and no law assumed about
    them, \<^verbatim>\<open>ERROR_TYPE\<close> a type \<open>'e\<close>. The Coordinator compares errors as
    \<^verbatim>\<open>double\<close> values with the built-in \<^verbatim>\<open><\<close>.
  \<^item> The template parameters \<^verbatim>\<open>POP_DIM\<close> and \<^verbatim>\<open>POP_SIZE\<close> of a solver are fields of
    its record; \<^verbatim>\<open>POP_SIZE\<close> is the share of the population that the solver owns.
  \<^item> A fixed-size array is a list; \<^verbatim>\<open>Matrix<POP_TYPE, N, D>\<close> is a list of rows.
    An index outside an array is undefined behaviour in C++; the theorems below
    carry the hypotheses that keep every index inside.
  \<^item> A random generator (\<^verbatim>\<open>std::function<T()>\<close> bound to an engine and a
    distribution) is the infinite sequence of values it will return, a function
    from \<open>nat\<close>, together with a cursor: the number of values drawn so far.
  \<^item> \<^verbatim>\<open>BaseDE.hpp\<close> is not part of the sources at hand. The fields of it that the
    code reads (\<^verbatim>\<open>kCR_\<close>, \<^verbatim>\<open>kF_\<close> and the callbacks) are the fields of the
    record \<open>BaseDE\<close>.
  \<^item> The members of the C++ classes end in an underscore (\<^verbatim>\<open>population_\<close>), which
    a name of a HOL constant cannot; the fields here have the same names without it.
\<close>

subsection \<open>Data\<close>

datatype WorkType = SOLVE_GENERATION | GET_BEST_CANDIDATE

record ('a, 'e) BaseDE =
  kCR :: real
  kF :: 'a
  callback_calc_error :: "'a list \<Rightarrow> 'e"
  callback_error_evaluation :: "'e \<Rightarrow> 'e \<Rightarrow> bool"

record ('a, 'e) ThreadsDESolver =
  POP_DIM :: nat
  POP_SIZE :: nat
  base_de :: "('a, 'e) BaseDE"
  population :: "'a list list"
  random_cr :: "nat \<Rightarrow> real"
  cr_drawn :: nat
  random_trials :: "nat \<Rightarrow> nat"
  trials_drawn :: nat
  random_j :: "nat \<Rightarrow> nat"
  j_drawn :: nat
  pop_trials :: "'a list list"
  pop_candidate :: "'a list"
  pop_errors :: "'e list"
  best_candidate :: "'e \<times> 'a list"

subsection \<open>Solver: mutation\<close>

text \<open>
  The two rejection loops of \<^verbatim>\<open>mutation\<close>. Each takes the value drawn before the
  loop and the cursor of \<^verbatim>\<open>random_trials_\<close>, and returns the accepted value with
  the new cursor. A loop that never exits has the value \<open>None\<close>.
  \<^verbatim>\<open>while (it1 == it0) { it1 = random_trials_(); }\<close>
  \<^verbatim>\<open>while (it2 == it1 || it2 == it0) { it2 = random_trials_(); }\<close>
\<close>

partial_function (option) while_it1 ::
  "(nat \<Rightarrow> nat) \<Rightarrow> nat \<Rightarrow> nat \<Rightarrow> nat \<Rightarrow> (nat \<times> nat) option" where
  "while_it1 rs it0 it1 pos =
     (if it1 = it0 then while_it1 rs it0 (rs pos) (Suc pos) else Some (it1, pos))"

partial_function (option) while_it2 ::
  "(nat \<Rightarrow> nat) \<Rightarrow> nat \<Rightarrow> nat \<Rightarrow> nat \<Rightarrow> nat \<Rightarrow> (nat \<times> nat) option" where
  "while_it2 rs it0 it1 it2 pos =
     (if it2 = it1 \<or> it2 = it0 then while_it2 rs it0 it1 (rs pos) (Suc pos)
      else Some (it2, pos))"

declare while_it1.simps [code] while_it2.simps [code]

text \<open>
  Lines 199 to 207: the three trial indices, drawn from \<^verbatim>\<open>random_trials_\<close> at
  cursor \<open>pos\<close>. The result is \<open>(it0, it1, it2)\<close> and the new cursor.
\<close>

definition trial_indices ::
  "(nat \<Rightarrow> nat) \<Rightarrow> nat \<Rightarrow> ((nat \<times> nat \<times> nat) \<times> nat) option" where
  "trial_indices rs pos =
     (let it0 = rs pos in
      case while_it1 rs it0 (rs (Suc pos)) (Suc (Suc pos)) of
        None \<Rightarrow> None
      | Some (it1, pos1) \<Rightarrow>
          (case while_it2 rs it0 it1 (rs pos1) (Suc pos1) of
             None \<Rightarrow> None
           | Some (it2, pos2) \<Rightarrow> Some ((it0, it1, it2), pos2)))"

text \<open>
  \<^verbatim>\<open>pop_trials_[0][j] + base_de_->kF_ * (pop_trials_[1][j] - pop_trials_[2][j])\<close>
\<close>

definition combine :: "('a::{plus,minus,times}, 'e) ThreadsDESolver \<Rightarrow> nat \<Rightarrow> 'a" where
  "combine s j =
     pop_trials s ! 0 ! j
       + kF (base_de s) * (pop_trials s ! 1 ! j - pop_trials s ! 2 ! j)"

text \<open>
  The crossover loop \<^verbatim>\<open>for (int k = 1; k < POP_DIM; ++k)\<close>, over the values
  \<open>ks\<close> of \<open>k\<close> still to come; \<open>j\<close> is the running dimension.
\<close>

fun crossover ::
  "nat \<Rightarrow> nat list \<Rightarrow> nat \<Rightarrow> ('a::{plus,minus,times}, 'e) ThreadsDESolver
     \<Rightarrow> ('a, 'e) ThreadsDESolver" where
  "crossover actual_index [] j s = s"
| "crossover actual_index (k # ks) j s =
     (let u = random_cr s (cr_drawn s);
          s1 = s\<lparr>cr_drawn := Suc (cr_drawn s)\<rparr>;
          s2 = (if u \<le> kCR (base_de s1)
                then s1\<lparr>pop_candidate := (pop_candidate s1)[j := combine s1 j]\<rparr>
                else s1\<lparr>pop_candidate :=
                          (pop_candidate s1)[j := population s1 ! actual_index ! j]\<rparr>)
      in crossover actual_index ks ((j + 1) mod POP_DIM s2) s2)"

definition mutation ::
  "nat \<Rightarrow> ('a::{plus,minus,times}, 'e) ThreadsDESolver \<Rightarrow> ('a, 'e) ThreadsDESolver option" where
  "mutation actual_index s =
     (let j = random_j s (j_drawn s);
          s0 = s\<lparr>j_drawn := Suc (j_drawn s)\<rparr>
      in case trial_indices (random_trials s0) (trials_drawn s0) of
           None \<Rightarrow> None
         | Some ((it0, it1, it2), pos) \<Rightarrow>
             (let s1 = s0\<lparr>trials_drawn := pos\<rparr>;
                  s2 = s1\<lparr>pop_trials :=
                          [map (\<lambda>d. population s1 ! it0 ! d) [0..<POP_DIM s1],
                           map (\<lambda>d. population s1 ! it1 ! d) [0..<POP_DIM s1],
                           map (\<lambda>d. population s1 ! it2 ! d) [0..<POP_DIM s1]]\<rparr>;
                  s3 = s2\<lparr>pop_candidate := (pop_candidate s2)[j := combine s2 j]\<rparr>
              in Some (crossover actual_index [1..<POP_DIM s3] ((j + 1) mod POP_DIM s3) s3)))"

subsection \<open>Solver: selection and the two commands\<close>

definition select ::
  "nat \<Rightarrow> ('a, 'e) ThreadsDESolver \<Rightarrow> ('a, 'e) ThreadsDESolver" where
  "select actual_index s =
     (let error_new = callback_calc_error (base_de s) (pop_candidate s)
      in if callback_error_evaluation (base_de s) error_new (pop_errors s ! actual_index)
         then s\<lparr>population := (population s)
                   [actual_index := map (\<lambda>d. pop_candidate s ! d) [0..<POP_DIM s]],
                 pop_errors := (pop_errors s)[actual_index := error_new]\<rparr>
         else s)"

text \<open>
  \<^verbatim>\<open>for (uint32_t i = 0; i < POP_SIZE; ++i) { mutation(i); select(i); }\<close>, over
  the values of \<open>i\<close> still to come.
\<close>

fun evolve_slots ::
  "nat list \<Rightarrow> ('a::{plus,minus,times}, 'e) ThreadsDESolver \<Rightarrow> ('a, 'e) ThreadsDESolver option" where
  "evolve_slots [] s = Some s"
| "evolve_slots (i # is) s =
     (case mutation i s of
        None \<Rightarrow> None
      | Some s1 \<Rightarrow> evolve_slots is (select i s1))"

text \<open>
  \<^verbatim>\<open>std::min_element(first, last, comp)\<close>: the index of the result. The loop keeps
  the index \<open>smallest\<close> and replaces it by \<open>i\<close> when \<open>cmp (xs ! i) (xs ! smallest)\<close>;
  on an empty range the result is \<open>last\<close>, at distance 0 from \<open>first\<close>.
\<close>

fun min_element_loop :: "('e \<Rightarrow> 'e \<Rightarrow> bool) \<Rightarrow> 'e list \<Rightarrow> nat \<Rightarrow> nat list \<Rightarrow> nat" where
  "min_element_loop cmp xs smallest [] = smallest"
| "min_element_loop cmp xs smallest (i # is) =
     min_element_loop cmp xs (if cmp (xs ! i) (xs ! smallest) then i else smallest) is"

definition min_element :: "('e \<Rightarrow> 'e \<Rightarrow> bool) \<Rightarrow> 'e list \<Rightarrow> nat" where
  "min_element cmp xs =
     (if xs = [] then 0 else min_element_loop cmp xs 0 [1..<length xs])"

definition compute_local_best ::
  "('a, 'e) ThreadsDESolver \<Rightarrow> ('a, 'e) ThreadsDESolver" where
  "compute_local_best s =
     (let min = min_element (callback_error_evaluation (base_de s)) (pop_errors s);
          r = map (\<lambda>d. population s ! min ! d) [0..<POP_DIM s]
      in s\<lparr>best_candidate := (pop_errors s ! min, r)\<rparr>)"

text \<open>
  One pass of the worker loop of \<^verbatim>\<open>run\<close> with a command pending: the command is
  executed. \<open>None\<close>: the worker never reports the work as ready.
\<close>

fun run :: "WorkType \<Rightarrow> ('a::{plus,minus,times}, 'e) ThreadsDESolver
              \<Rightarrow> ('a, 'e) ThreadsDESolver option" where
  "run SOLVE_GENERATION s = evolve_slots [0..<POP_SIZE s] s"
| "run GET_BEST_CANDIDATE s = Some (compute_local_best s)"

subsection \<open>Well-formed solvers\<close>

text \<open>
  The arrays of a solver have the sizes their C++ types give them.
\<close>

definition wf_solver :: "('a, 'e) ThreadsDESolver \<Rightarrow> bool" where
  "wf_solver s \<longleftrightarrow>
     length (population s) = POP_SIZE s \<and>
     list_all (\<lambda>row. length row = POP_DIM s) (population s) \<and>
     length (pop_candidate s) = POP_DIM s \<and>
     length (pop_errors s) = POP_SIZE s"

subsection \<open>Coordinator\<close>

text \<open>
  The worker threads are not modelled as threads. A command that the Coordinator
  hands to a solver (\<^verbatim>\<open>solveOneGeneration\<close>, \<^verbatim>\<open>solveBestCandidate\<close>) is executed
  by the solver at the request. That is the state the Coordinator finds after it
  has waited on the solver (\<^verbatim>\<open>waitWork\<close>); it is the state of the program only
  where the Coordinator waits on a solver before it reads or writes that solver,
  as \<^verbatim>\<open>getBestCandidate\<close> does. \<^verbatim>\<open>migration\<close> does not wait on every solver, and
  there the state of the solvers is the one of the schedule in which each worker
  is done before the Coordinator goes on.

  What the Coordinator does to its solvers is kept in a trace, in the order of
  the calls: a request, a \<^verbatim>\<open>waitWork\<close>, or the write of migration into a row of
  a solver's population (source solver, destination solver, row). The trace and
  the cursors of the Coordinator's two generators do not depend on the workers.
\<close>

datatype event =
  SolveOneGeneration nat
| SolveBestCandidate nat
| WaitWork nat
| PopulationWrite nat nat nat

record ('a, 'e) ThreadsDE =
  kNProcess :: nat
  kMigrationPhi :: real
  kPopSize :: nat
  solvers :: "('a, 'e) ThreadsDESolver list"
  random_phi :: "nat \<Rightarrow> real"
  phi_drawn :: nat
  random_migration_index :: "nat \<Rightarrow> nat"
  migration_index_drawn :: nat
  trace :: "event list"

definition waitWork :: "nat \<Rightarrow> ('a, 'e) ThreadsDE \<Rightarrow> ('a, 'e) ThreadsDE" where
  "waitWork k c = c\<lparr>trace := trace c @ [WaitWork k]\<rparr>"

text \<open>
  \<^verbatim>\<open>for (auto& s : solvers_) { s->solveBestCandidate(); }\<close>
  Each solver executes \<open>GET_BEST_CANDIDATE\<close>, which always completes:
  \<open>run GET_BEST_CANDIDATE s = Some (compute_local_best s)\<close>.
\<close>

definition broadcast_solveBestCandidate :: "('a, 'e) ThreadsDE \<Rightarrow> ('a, 'e) ThreadsDE" where
  "broadcast_solveBestCandidate c =
     c\<lparr>solvers := map compute_local_best (solvers c),
       trace := trace c @ map SolveBestCandidate [0..<length (solvers c)]\<rparr>"

text \<open>
  \<^verbatim>\<open>for (auto& s : solvers_) { s->solveOneGeneration(); }\<close>, over the indices of
  the solvers still to come. \<open>None\<close>: a solver never finishes its generation.
\<close>

fun broadcast_solveOneGeneration ::
  "nat list \<Rightarrow> ('a::{plus,minus,times}, 'e) ThreadsDE \<Rightarrow> ('a, 'e) ThreadsDE option" where
  "broadcast_solveOneGeneration [] c = Some c"
| "broadcast_solveOneGeneration (k # ks) c =
     (case run SOLVE_GENERATION (solvers c ! k) of
        None \<Rightarrow> None
      | Some s' \<Rightarrow>
          broadcast_solveOneGeneration ks
            (c\<lparr>solvers := (solvers c)[k := s'],
               trace := trace c @ [SolveOneGeneration k]\<rparr>))"

text \<open>
  The body of the \<^verbatim>\<open>if\<close> of \<^verbatim>\<open>migration\<close>, lines 408 to 411:
  \<^verbatim>\<open>solvers_[i]->waitWork();\<close>
  \<^verbatim>\<open>auto bc = get<1>(solvers_[i]->getBestCandidate());\<close>
  \<^verbatim>\<open>const uint32_t mi = random_migration_index_();\<close>
  \<^verbatim>\<open>solvers_[(i+1)%solvers_.size()]->population_[mi] = bc;\<close>
\<close>

definition migration_write :: "nat \<Rightarrow> ('a, 'e) ThreadsDE \<Rightarrow> ('a, 'e) ThreadsDE" where
  "migration_write i c =
     (let c1 = waitWork i c;
          bc = snd (best_candidate (solvers c1 ! i));
          mi = random_migration_index c1 (migration_index_drawn c1);
          c2 = c1\<lparr>migration_index_drawn := Suc (migration_index_drawn c1)\<rparr>;
          dst = (i + 1) mod length (solvers c2);
          d = solvers c2 ! dst
      in c2\<lparr>solvers := (solvers c2)[dst := d\<lparr>population := (population d)[mi := bc]\<rparr>],
            trace := trace c2 @ [PopulationWrite i dst mi]\<rparr>)"

text \<open>
  \<^verbatim>\<open>for (int i = 0; i < solvers_.size(); ++i) { if (random_phi_() < kMigrationPhi_) { ... } }\<close>,
  over the values of \<open>i\<close> still to come.
\<close>

fun migration_loop :: "nat list \<Rightarrow> ('a, 'e) ThreadsDE \<Rightarrow> ('a, 'e) ThreadsDE" where
  "migration_loop [] c = c"
| "migration_loop (i # is) c =
     (let u = random_phi c (phi_drawn c);
          c1 = c\<lparr>phi_drawn := Suc (phi_drawn c)\<rparr>
      in if u < kMigrationPhi c1
         then migration_loop is (migration_write i c1)
         else migration_loop is c1)"

definition migration :: "('a, 'e) ThreadsDE \<Rightarrow> ('a, 'e) ThreadsDE" where
  "migration c =
     (let c1 = broadcast_solveBestCandidate c
      in migration_loop [0..<length (solvers c1)] c1)"

text \<open>
  \<^verbatim>\<open>ThreadsDE::solveOneGeneration\<close> and \<^verbatim>\<open>ThreadsDE::solveNGenerations\<close>.
\<close>

definition solveOneGeneration ::
  "('a::{plus,minus,times}, 'e) ThreadsDE \<Rightarrow> ('a, 'e) ThreadsDE option" where
  "solveOneGeneration c =
     (case broadcast_solveOneGeneration [0..<length (solvers c)] c of
        None \<Rightarrow> None
      | Some c1 \<Rightarrow>
          Some (migration (c1\<lparr>trace := trace c1 @ map WaitWork [0..<length (solvers c1)]\<rparr>)))"

fun solveNGenerations ::
  "nat \<Rightarrow> ('a::{plus,minus,times}, 'e) ThreadsDE \<Rightarrow> ('a, 'e) ThreadsDE option" where
  "solveNGenerations 0 c = Some c"
| "solveNGenerations (Suc g) c =
     (case solveOneGeneration c of
        None \<Rightarrow> None
      | Some c1 \<Rightarrow> solveNGenerations g c1)"

text \<open>
  \<^verbatim>\<open>ThreadsDE::getBestCandidate\<close>. The running minimum is a \<^verbatim>\<open>double min_error\<close>
  (line 378) whatever \<^verbatim>\<open>ERROR_TYPE\<close> is: an error is converted to \<^verbatim>\<open>double\<close> when it
  is stored there and when it is compared with it (line 384, the built-in \<^verbatim>\<open><\<close>), and
  the minimum is converted back to \<^verbatim>\<open>ERROR_TYPE\<close> in the result (line 390). The two
  conversions depend on \<^verbatim>\<open>ERROR_TYPE\<close> and are the parameters \<open>to_double\<close> and
  \<open>of_double\<close>; a \<^verbatim>\<open>double\<close> is a real number here. Every solver is waited on before
  its local best is read.
\<close>

fun best_loop ::
  "('e \<Rightarrow> real) \<Rightarrow> nat list \<Rightarrow> real \<Rightarrow> 'a list \<Rightarrow> ('a, 'e) ThreadsDE
     \<Rightarrow> (real \<times> 'a list) \<times> ('a, 'e) ThreadsDE" where
  "best_loop to_double [] min_error min_error_pos c = ((min_error, min_error_pos), c)"
| "best_loop to_double (k # ks) min_error min_error_pos c =
     (let c1 = waitWork k c;
          bc = best_candidate (solvers c1 ! k)
      in if to_double (fst bc) < min_error
         then best_loop to_double ks (to_double (fst bc)) (snd bc) c1
         else best_loop to_double ks min_error min_error_pos c1)"

definition getBestCandidate ::
  "('e \<Rightarrow> real) \<Rightarrow> (real \<Rightarrow> 'e) \<Rightarrow> ('a, 'e) ThreadsDE
     \<Rightarrow> ('e \<times> 'a list) \<times> ('a, 'e) ThreadsDE" where
  "getBestCandidate to_double of_double c =
     (let c1 = broadcast_solveBestCandidate c;
          c2 = waitWork 0 c1;
          min_error = to_double (fst (best_candidate (solvers c2 ! 0)));
          min_error_pos = snd (best_candidate (solvers c2 ! 0));
          ((min_error', min_error_pos'), c3) =
             best_loop to_double [0..<length (solvers c2)] min_error min_error_pos c2
      in ((of_double min_error', min_error_pos'), c3))"

subsection \<open>A concrete configuration\<close>

text \<open>
  Two dimensions, integer candidates, the squared distance to the point (5, 5) as
  error and the numeric less-than as ordering predicate; \<open>F = 1\<close> and \<open>CR = 0.9\<close>.
\<close>

definition example_base :: "(int, int) BaseDE" where
  "example_base =
     \<lparr>kCR = 9 / 10, kF = 1,
      callback_calc_error = (\<lambda>c. (c ! 0 - 5) * (c ! 0 - 5) + (c ! 1 - 5) * (c ! 1 - 5)),
      callback_error_evaluation = (\<lambda>a b. a < b)\<rparr>"

text \<open>
  The conversions between \<^verbatim>\<open>int\<close> and \<^verbatim>\<open>double\<close>: exact on the integers of the
  examples, truncating towards zero on the way back.
\<close>

definition int_to_double :: "int \<Rightarrow> real" where
  "int_to_double x = of_int x"

definition double_to_int :: "real \<Rightarrow> int" where
  "double_to_int x = (if 0 \<le> x then \<lfloor>x\<rfloor> else \<lceil>x\<rceil>)"

definition example_solver :: "(int, int) ThreadsDESolver" where
  "example_solver =
     \<lparr>POP_DIM = 2, POP_SIZE = 4, base_de = example_base,
      population = [[0, 0], [9, 1], [3, 9], [6, 6]],
      random_cr = (\<lambda>n. if n = 2 then 19 / 20 else 1 / 2), cr_drawn = 0,
      random_trials = (\<lambda>n. if n < 9 then [1, 1, 2, 2, 1, 3, 0, 2, 3] ! n else n mod 4),
      trials_drawn = 0,
      random_j = (\<lambda>n. n mod 2), j_drawn = 0,
      pop_trials = [[0, 0], [0, 0], [0, 0]],
      pop_candidate = [0, 0],
      pop_errors = [50, 32, 20, 2],
      best_candidate = (0, [0, 0])\<rparr>"

text \<open>The same solver after \<open>mutation 0\<close>, and after one generation.\<close>

definition example_solver_mutated :: "(int, int) ThreadsDESolver" where
  "example_solver_mutated =
     example_solver
       \<lparr>cr_drawn := 1, trials_drawn := 6, j_drawn := 1,
        pop_trials := [[9, 1], [3, 9], [6, 6]],
        pop_candidate := [6, 4]\<rparr>"

definition example_solver_evolved :: "(int, int) ThreadsDESolver" where
  "example_solver_evolved =
     example_solver
       \<lparr>population := [[6, 4], [3, 7], [3, 9], [6, 6]],
        cr_drawn := 4, trials_drawn := 15, j_drawn := 4,
        pop_trials := [[6, 4], [3, 7], [3, 9]],
        pop_candidate := [6, 2],
        pop_errors := [2, 8, 20, 2]\<rparr>"

text \<open>A share of two candidates only, with a stream of indices in its range.\<close>

definition small_solver :: "(int, int) ThreadsDESolver" where
  "small_solver =
     example_solver
       \<lparr>POP_SIZE := 2, population := [[0, 0], [9, 1]], pop_errors := [50, 32],
        random_trials := (\<lambda>n. n mod 2)\<rparr>"


definition example_solver2 :: "(int, int) ThreadsDESolver" where
  "example_solver2 =
     example_solver\<lparr>population := [[1, 1], [2, 2], [7, 7], [5, 4]], pop_errors := [32, 18, 8, 1]\<rparr>"

text \<open>
  A Coordinator over the two solvers, with migration probability 0.5; the draws of
  \<^verbatim>\<open>random_phi_\<close> alternate between 0.25 and 0.75.
\<close>

definition example_coordinator :: "(int, int) ThreadsDE" where
  "example_coordinator =
     \<lparr>kNProcess = 2, kMigrationPhi = 1 / 2, kPopSize = 8,
      solvers = [example_solver, example_solver2],
      random_phi = (\<lambda>n. if even n then 1 / 4 else 3 / 4), phi_drawn = 0,
      random_migration_index = (\<lambda>n. (n + 2) mod 4), migration_index_drawn = 0,
      trace = []\<rparr>"

text \<open>The same Coordinator with a Strategy that maximises: the larger error is the better.\<close>

definition example_coordinator_max :: "(int, int) ThreadsDE" where
  "example_coordinator_max =
     example_coordinator
       \<lparr>solvers :=
          map (\<lambda>s. s\<lparr>base_de := example_base\<lparr>callback_error_evaluation := (\<lambda>a b. b < a)\<rparr>\<rparr>)
            (solvers example_coordinator)\<rparr>"

text \<open>A Coordinator with a single solver.\<close>

definition single_coordinator :: "(int, int) ThreadsDE" where
  "single_coordinator =
     example_coordinator\<lparr>kNProcess := 1, kPopSize := 4, solvers := [example_solver]\<rparr>"

section \<open>Properties\<close>

subsection \<open>The rejection loops of mutation\<close>

lemma while_it1_neq:
  assumes "while_it1 rs it0 it1 pos = Some y"
  shows "fst y \<noteq> it0"
  using assms
  by (rule while_it1.raw_induct[rotated 1, where P = "\<lambda>rs it0 it1 pos y. fst y \<noteq> it0"])
     (auto split: if_splits)

lemma while_it2_neq:
  assumes "while_it2 rs it0 it1 it2 pos = Some y"
  shows "fst y \<noteq> it0 \<and> fst y \<noteq> it1"
  using assms
  by (rule while_it2.raw_induct[rotated 1,
        where P = "\<lambda>rs it0 it1 it2 pos y. fst y \<noteq> it0 \<and> fst y \<noteq> it1"])
     (auto split: if_splits)

lemma trial_indices_neq:
  assumes "trial_indices rs pos = Some ((it0, it1, it2), pos')"
  shows "it1 \<noteq> it0 \<and> it2 \<noteq> it0 \<and> it2 \<noteq> it1"
proof -
  from assms obtain p1 where
    w1: "while_it1 rs it0 (rs (Suc pos)) (Suc (Suc pos)) = Some (it1, p1)" and
    w2: "while_it2 rs it0 it1 (rs p1) (Suc p1) = Some (it2, pos')"
    unfolding trial_indices_def Let_def by (auto split: option.splits)
  from while_it1_neq[OF w1] while_it2_neq[OF w2] show ?thesis by simp
qed

lemma while_it1_terminates:
  "q \<le> n \<Longrightarrow> rs n \<noteq> it0 \<Longrightarrow>
     \<exists>m. q \<le> m \<and> m \<le> n \<and> rs m \<noteq> it0 \<and> while_it1 rs it0 (rs q) (Suc q) = Some (rs m, Suc m)"
proof (induction "n - q" arbitrary: q)
  case 0
  then have "q = n" by simp
  with 0 show ?case by (subst while_it1.simps) auto
next
  case (Suc d)
  show ?case
  proof (cases "rs q = it0")
    case False
    then show ?thesis using Suc.prems by (subst while_it1.simps) auto
  next
    case True
    from Suc have "d = n - Suc q" "Suc q \<le> n" by auto
    from Suc.hyps(1)[OF this Suc.prems(2)] obtain m where
      "Suc q \<le> m" "m \<le> n" "rs m \<noteq> it0" "while_it1 rs it0 (rs (Suc q)) (Suc (Suc q)) = Some (rs m, Suc m)"
      by blast
    then show ?thesis using True by (subst while_it1.simps) auto
  qed
qed

lemma while_it2_terminates:
  "q \<le> n \<Longrightarrow> rs n \<noteq> it0 \<Longrightarrow> rs n \<noteq> it1 \<Longrightarrow>
     \<exists>m. q \<le> m \<and> m \<le> n \<and> while_it2 rs it0 it1 (rs q) (Suc q) = Some (rs m, Suc m)"
proof (induction "n - q" arbitrary: q)
  case 0
  then have "q = n" by simp
  with 0 show ?case by (subst while_it2.simps) auto
next
  case (Suc d)
  show ?case
  proof (cases "rs q = it1 \<or> rs q = it0")
    case False
    then show ?thesis using Suc.prems by (subst while_it2.simps) auto
  next
    case True
    from Suc have "d = n - Suc q" "Suc q \<le> n" by auto
    from Suc.hyps(1)[OF this Suc.prems(2,3)] obtain m where
      "Suc q \<le> m" "m \<le> n" "while_it2 rs it0 it1 (rs (Suc q)) (Suc (Suc q)) = Some (rs m, Suc m)"
      by blast
    then show ?thesis using True by (subst while_it2.simps) auto
  qed
qed

lemma while_it2_livelock:
  assumes "\<forall>n. rs n < N" "N < 3" "it0 < N" "it1 < N" "it1 \<noteq> it0" "it2 < N"
  shows "while_it2 rs it0 it1 it2 pos = None"
proof (rule ccontr)
  assume "while_it2 rs it0 it1 it2 pos \<noteq> None"
  then obtain y where y: "while_it2 rs it0 it1 it2 pos = Some y" by auto
  have "(\<forall>n. rs n < N) \<longrightarrow> it0 < N \<longrightarrow> it1 < N \<longrightarrow> it1 \<noteq> it0 \<longrightarrow> it2 < N \<longrightarrow> False"
    using y
  proof (rule while_it2.raw_induct[rotated 1,
        where P = "\<lambda>rs it0 it1 it2 pos y.
           (\<forall>n. rs n < N) \<longrightarrow> it0 < N \<longrightarrow> it1 < N \<longrightarrow> it1 \<noteq> it0 \<longrightarrow> it2 < N \<longrightarrow> False"])
    fix f and rs' :: "nat \<Rightarrow> nat" and a b c p :: nat and z :: "nat \<times> nat"
    assume IH: "\<And>rs a b c p z. f rs a b c p = Some z \<Longrightarrow>
        (\<forall>n. rs n < N) \<longrightarrow> a < N \<longrightarrow> b < N \<longrightarrow> b \<noteq> a \<longrightarrow> c < N \<longrightarrow> False"
      and step: "(if c = b \<or> c = a then f rs' a b (rs' p) (Suc p) else Some (c, p)) = Some z"
    show "(\<forall>n. rs' n < N) \<longrightarrow> a < N \<longrightarrow> b < N \<longrightarrow> b \<noteq> a \<longrightarrow> c < N \<longrightarrow> False"
    proof (intro impI)
      assume h: "\<forall>n. rs' n < N" "a < N" "b < N" "b \<noteq> a" "c < N"
      with \<open>N < 3\<close> have "c = b \<or> c = a" by arith
      with step have "f rs' a b (rs' p) (Suc p) = Some z" by simp
      from IH[OF this] h show False by blast
    qed
  qed
  with assms show False by simp
qed

lemma while_it1_livelock:
  assumes "\<forall>n. rs n < N" "N < 2" "it0 < N" "it1 < N"
  shows "while_it1 rs it0 it1 pos = None"
proof (rule ccontr)
  assume "while_it1 rs it0 it1 pos \<noteq> None"
  then obtain y where y: "while_it1 rs it0 it1 pos = Some y" by auto
  have "(\<forall>n. rs n < N) \<longrightarrow> it0 < N \<longrightarrow> it1 < N \<longrightarrow> False"
    using y
  proof (rule while_it1.raw_induct[rotated 1,
        where P = "\<lambda>rs it0 it1 pos y. (\<forall>n. rs n < N) \<longrightarrow> it0 < N \<longrightarrow> it1 < N \<longrightarrow> False"])
    fix f and rs' :: "nat \<Rightarrow> nat" and a b p :: nat and z :: "nat \<times> nat"
    assume IH: "\<And>rs a b p z. f rs a b p = Some z \<Longrightarrow>
        (\<forall>n. rs n < N) \<longrightarrow> a < N \<longrightarrow> b < N \<longrightarrow> False"
      and step: "(if b = a then f rs' a (rs' p) (Suc p) else Some (b, p)) = Some z"
    show "(\<forall>n. rs' n < N) \<longrightarrow> a < N \<longrightarrow> b < N \<longrightarrow> False"
    proof (intro impI)
      assume h: "\<forall>n. rs' n < N" "a < N" "b < N"
      with \<open>N < 2\<close> have "b = a" by arith
      with step have "f rs' a (rs' p) (Suc p) = Some z" by simp
      from IH[OF this] h show False by blast
    qed
  qed
  with assms show False by simp
qed


lemma while_it1_value:
  assumes "while_it1 rs it0 it1 pos = Some y"
  shows "fst y = it1 \<or> (\<exists>m. fst y = rs m)"
  using assms
  by (rule while_it1.raw_induct[rotated 1,
        where P = "\<lambda>rs it0 it1 pos y. fst y = it1 \<or> (\<exists>m. fst y = rs m)"])
     (fastforce split: if_splits)

lemma trial_indices_livelock:
  assumes "N < 3" "\<forall>n. rs n < N"
  shows "trial_indices rs pos = None"
proof (cases "while_it1 rs (rs pos) (rs (Suc pos)) (Suc (Suc pos))")
  case None
  then show ?thesis by (simp add: trial_indices_def)
next
  case (Some y)
  obtain it1 p1 where y: "y = (it1, p1)" by (cases y)
  from while_it1_neq[OF Some] y have ne: "it1 \<noteq> rs pos" by simp
  from while_it1_value[OF Some] y assms(2) have "it1 < N" by auto
  with assms ne have "while_it2 rs (rs pos) it1 (rs p1) (Suc p1) = None"
    by (intro while_it2_livelock[where N = N]) auto
  with Some y show ?thesis by (simp add: trial_indices_def)
qed

lemma mutation_livelock:
  assumes "POP_SIZE s < 3" "\<forall>n. random_trials s n < POP_SIZE s"
  shows "mutation i s = None"
  using trial_indices_livelock[OF assms, of "trials_drawn s"]
  by (simp add: mutation_def)

lemma while_it1_result:
  assumes "while_it1 rs it0 it1 pos = Some y"
  shows "\<forall>q. it1 = rs q \<and> pos = Suc q \<longrightarrow> (\<exists>m\<ge>q. y = (rs m, Suc m) \<and> rs m \<noteq> it0)"
  using assms
proof (rule while_it1.raw_induct[rotated 1,
      where P = "\<lambda>rs it0 it1 pos y.
        \<forall>q. it1 = rs q \<and> pos = Suc q \<longrightarrow> (\<exists>m\<ge>q. y = (rs m, Suc m) \<and> rs m \<noteq> it0)"])
  fix f and rs' :: "nat \<Rightarrow> nat" and a b p :: nat and z :: "nat \<times> nat"
  assume IH: "\<And>rs a b p z. f rs a b p = Some z \<Longrightarrow>
      \<forall>q. b = rs q \<and> p = Suc q \<longrightarrow> (\<exists>m\<ge>q. z = (rs m, Suc m) \<and> rs m \<noteq> a)"
    and step: "(if b = a then f rs' a (rs' p) (Suc p) else Some (b, p)) = Some z"
  show "\<forall>q. b = rs' q \<and> p = Suc q \<longrightarrow> (\<exists>m\<ge>q. z = (rs' m, Suc m) \<and> rs' m \<noteq> a)"
  proof (intro allI impI)
    fix q assume q: "b = rs' q \<and> p = Suc q"
    show "\<exists>m\<ge>q. z = (rs' m, Suc m) \<and> rs' m \<noteq> a"
    proof (cases "b = a")
      case False
      with step q have "z = (rs' q, Suc q) \<and> rs' q \<noteq> a" by auto
      then show ?thesis by blast
    next
      case True
      with step have "f rs' a (rs' p) (Suc p) = Some z" by simp
      from IH[OF this] have "\<exists>m\<ge>p. z = (rs' m, Suc m) \<and> rs' m \<noteq> a" by simp
      then obtain m where "p \<le> m" "z = (rs' m, Suc m)" "rs' m \<noteq> a" by blast
      with q have "q \<le> m" by simp
      with \<open>z = (rs' m, Suc m)\<close> \<open>rs' m \<noteq> a\<close> show ?thesis by blast
    qed
  qed
qed

lemma while_it2_result:
  assumes "while_it2 rs it0 it1 it2 pos = Some y"
  shows "\<forall>q. it2 = rs q \<and> pos = Suc q \<longrightarrow>
           (\<exists>m\<ge>q. y = (rs m, Suc m) \<and> rs m \<noteq> it0 \<and> rs m \<noteq> it1)"
  using assms
proof (rule while_it2.raw_induct[rotated 1,
      where P = "\<lambda>rs it0 it1 it2 pos y.
        \<forall>q. it2 = rs q \<and> pos = Suc q \<longrightarrow>
           (\<exists>m\<ge>q. y = (rs m, Suc m) \<and> rs m \<noteq> it0 \<and> rs m \<noteq> it1)"])
  fix f and rs' :: "nat \<Rightarrow> nat" and a b c p :: nat and z :: "nat \<times> nat"
  assume IH: "\<And>rs a b c p z. f rs a b c p = Some z \<Longrightarrow>
      \<forall>q. c = rs q \<and> p = Suc q \<longrightarrow> (\<exists>m\<ge>q. z = (rs m, Suc m) \<and> rs m \<noteq> a \<and> rs m \<noteq> b)"
    and step: "(if c = b \<or> c = a then f rs' a b (rs' p) (Suc p) else Some (c, p)) = Some z"
  show "\<forall>q. c = rs' q \<and> p = Suc q \<longrightarrow>
          (\<exists>m\<ge>q. z = (rs' m, Suc m) \<and> rs' m \<noteq> a \<and> rs' m \<noteq> b)"
  proof (intro allI impI)
    fix q assume q: "c = rs' q \<and> p = Suc q"
    show "\<exists>m\<ge>q. z = (rs' m, Suc m) \<and> rs' m \<noteq> a \<and> rs' m \<noteq> b"
    proof (cases "c = b \<or> c = a")
      case False
      with step q have "z = (rs' q, Suc q) \<and> rs' q \<noteq> a \<and> rs' q \<noteq> b" by auto
      then show ?thesis by blast
    next
      case True
      with step have "f rs' a b (rs' p) (Suc p) = Some z" by simp
      from IH[OF this] have "\<exists>m\<ge>p. z = (rs' m, Suc m) \<and> rs' m \<noteq> a \<and> rs' m \<noteq> b" by simp
      then obtain m where m: "p \<le> m" "z = (rs' m, Suc m)" "rs' m \<noteq> a" "rs' m \<noteq> b" by blast
      with q have "q \<le> m" by simp
      with m show ?thesis by blast
    qed
  qed
qed

lemma trial_indices_returns_if:
  assumes "pos < m" "m < m'" "rs m \<noteq> rs pos" "rs m' \<noteq> rs pos" "rs m' \<noteq> rs m"
  shows "\<exists>r. trial_indices rs pos = Some r"
proof -
  from assms(1) have "Suc pos \<le> m" by simp
  from while_it1_terminates[of "Suc pos" m rs "rs pos", OF this assms(3)] obtain m0 where
    m0: "Suc pos \<le> m0" "m0 \<le> m" "rs m0 \<noteq> rs pos"
      "while_it1 rs (rs pos) (rs (Suc pos)) (Suc (Suc pos)) = Some (rs m0, Suc m0)"
    by blast
  have "\<exists>n. Suc m0 \<le> n \<and> rs n \<noteq> rs pos \<and> rs n \<noteq> rs m0"
  proof (cases "rs m = rs m0")
    case True
    with assms m0(2) have "Suc m0 \<le> m' \<and> rs m' \<noteq> rs pos \<and> rs m' \<noteq> rs m0" by simp
    then show ?thesis by blast
  next
    case False
    with m0(2) have "m0 < m" by (cases "m0 = m") auto
    with False assms(3) have "Suc m0 \<le> m \<and> rs m \<noteq> rs pos \<and> rs m \<noteq> rs m0" by simp
    then show ?thesis by blast
  qed
  then obtain n where n: "Suc m0 \<le> n" "rs n \<noteq> rs pos" "rs n \<noteq> rs m0" by blast
  from while_it2_terminates[of "Suc m0" n rs "rs pos" "rs m0", OF n] obtain m1 where
    "while_it2 rs (rs pos) (rs m0) (rs (Suc m0)) (Suc (Suc m0)) = Some (rs m1, Suc m1)"
    by blast
  with m0(4) show ?thesis by (simp add: trial_indices_def)
qed

lemma trial_indices_returns_only_if:
  assumes "trial_indices rs pos = Some r"
  shows "\<exists>m>pos. \<exists>m'>m. rs m \<noteq> rs pos \<and> rs m' \<noteq> rs pos \<and> rs m' \<noteq> rs m"
proof -
  from assms obtain it1 p1 y where
    w1: "while_it1 rs (rs pos) (rs (Suc pos)) (Suc (Suc pos)) = Some (it1, p1)" and
    w2: "while_it2 rs (rs pos) it1 (rs p1) (Suc p1) = Some y"
    unfolding trial_indices_def Let_def by (auto split: option.splits)
  from while_it1_result[OF w1] obtain m where
    m: "Suc pos \<le> m" "it1 = rs m" "p1 = Suc m" "rs m \<noteq> rs pos" by auto
  from while_it2_result[OF w2] obtain m' where
    m': "p1 \<le> m'" "rs m' \<noteq> rs pos" "rs m' \<noteq> it1" by auto
  from m m' have "pos < m \<and> m < m' \<and> rs m \<noteq> rs pos \<and> rs m' \<noteq> rs pos \<and> rs m' \<noteq> rs m"
    by simp
  then show ?thesis by blast
qed

lemma trial_indices_returns_iff:
  "(\<exists>r. trial_indices rs pos = Some r) \<longleftrightarrow>
   (\<exists>m>pos. \<exists>m'>m. rs m \<noteq> rs pos \<and> rs m' \<noteq> rs pos \<and> rs m' \<noteq> rs m)"
  using trial_indices_returns_if[of pos _ _ rs] trial_indices_returns_only_if[of rs pos]
  by blast

lemma mutation_returns_iff:
  "(\<exists>s'. mutation i s = Some s') \<longleftrightarrow>
   (\<exists>r. trial_indices (random_trials s) (trials_drawn s) = Some r)"
  by (auto simp: mutation_def Let_def split: option.splits)

text \<open>
  Claim C6. Whenever the index selection of \<^verbatim>\<open>mutation\<close> returns, for any stream
  of \<^verbatim>\<open>random_trials_\<close> and any cursor, the three indices are pairwise different:
  \<open>it1 \<noteq> it0\<close>, \<open>it2 \<noteq> it0\<close> and \<open>it2 \<noteq> it1\<close>.
\<close>

theorem trial_indices_distinct:
  "trial_indices rs pos = Some ((it0, it1, it2), pos') \<Longrightarrow>
     it1 \<noteq> it0 \<and> it2 \<noteq> it0 \<and> it2 \<noteq> it1"
  by (rule trial_indices_neq)

theorem trial_indices_distinct_witness:
  "trial_indices (\<lambda>n. n div 2 mod 3) 0 = Some ((0, 1, 2), 5) \<and>
     (1::nat) \<noteq> 0 \<and> (2::nat) \<noteq> 0 \<and> (2::nat) \<noteq> 1"
proof -
  have e: "trial_indices (\<lambda>n. n div 2 mod 3) 0 = Some ((0, 1, 2), 5)"
    by (simp add: trial_indices_def while_it1.simps while_it2.simps)
  from trial_indices_distinct[OF e] e show ?thesis by simp
qed


text \<open>
  Claim C8. A share of fewer than three candidates is degenerate. With
  \<open>POP_SIZE < 3\<close> and every value of \<^verbatim>\<open>random_trials_\<close> inside \<open>[0, POP_SIZE)\<close>,
  \<^verbatim>\<open>mutation\<close> never returns; in particular the loop that selects \<open>it2\<close>, entered
  with two different indices \<open>it0\<close> and \<open>it1\<close> of the range, exits for no stream.
  Conversely the loops exit, and \<^verbatim>\<open>mutation\<close> returns, exactly for the streams that
  eventually produce the needed values: after the draw of \<open>it0\<close> a value other than
  \<open>it0\<close>, and later a value other than both (three different indices, which a
  stream inside \<open>[0, POP_SIZE)\<close> has only for \<open>POP_SIZE\<close> at least 3).
\<close>

theorem degenerate_share_size:
  "(POP_SIZE s < 3 \<longrightarrow> (\<forall>n. random_trials s n < POP_SIZE s) \<longrightarrow> mutation i s = None) \<and>
   (N < 3 \<longrightarrow> (\<forall>n. rs n < N) \<longrightarrow> it0 < N \<longrightarrow> it1 < N \<longrightarrow> it1 \<noteq> it0 \<longrightarrow> it2 < N \<longrightarrow>
      while_it2 rs it0 it1 it2 p = None) \<and>
   ((\<exists>r. trial_indices rs' pos = Some r) \<longleftrightarrow>
      (\<exists>m>pos. \<exists>m'>m. rs' m \<noteq> rs' pos \<and> rs' m' \<noteq> rs' pos \<and> rs' m' \<noteq> rs' m)) \<and>
   ((\<exists>s'. mutation i s = Some s') \<longleftrightarrow>
      (\<exists>m>trials_drawn s. \<exists>m'>m.
          random_trials s m \<noteq> random_trials s (trials_drawn s) \<and>
          random_trials s m' \<noteq> random_trials s (trials_drawn s) \<and>
          random_trials s m' \<noteq> random_trials s m)) \<and>
   ((\<exists>r. trial_indices rs' pos = Some r) \<longrightarrow> (\<forall>n. rs' n < N') \<longrightarrow> 3 \<le> N')"
proof (intro conjI)
  show "POP_SIZE s < 3 \<longrightarrow> (\<forall>n. random_trials s n < POP_SIZE s) \<longrightarrow> mutation i s = None"
    using mutation_livelock[of s i] by blast
  show "N < 3 \<longrightarrow> (\<forall>n. rs n < N) \<longrightarrow> it0 < N \<longrightarrow> it1 < N \<longrightarrow> it1 \<noteq> it0 \<longrightarrow> it2 < N \<longrightarrow>
      while_it2 rs it0 it1 it2 p = None"
    using while_it2_livelock[of rs N it0 it1 it2 p] by blast
  show "(\<exists>r. trial_indices rs' pos = Some r) \<longleftrightarrow>
      (\<exists>m>pos. \<exists>m'>m. rs' m \<noteq> rs' pos \<and> rs' m' \<noteq> rs' pos \<and> rs' m' \<noteq> rs' m)"
    by (rule trial_indices_returns_iff)
  show "(\<exists>s'. mutation i s = Some s') \<longleftrightarrow>
      (\<exists>m>trials_drawn s. \<exists>m'>m.
          random_trials s m \<noteq> random_trials s (trials_drawn s) \<and>
          random_trials s m' \<noteq> random_trials s (trials_drawn s) \<and>
          random_trials s m' \<noteq> random_trials s m)"
    unfolding mutation_returns_iff by (rule trial_indices_returns_iff)
  show "(\<exists>r. trial_indices rs' pos = Some r) \<longrightarrow> (\<forall>n. rs' n < N') \<longrightarrow> 3 \<le> N'"
  proof (intro impI)
    assume r: "\<exists>r. trial_indices rs' pos = Some r" and b: "\<forall>n. rs' n < N'"
    show "3 \<le> N'"
    proof (rule ccontr)
      assume "\<not> 3 \<le> N'"
      then have "N' < 3" by simp
      from trial_indices_livelock[OF this b, of pos] r show False by simp
    qed
  qed
qed

theorem degenerate_share_size_witness:
  "POP_SIZE small_solver < 3 \<and>
   (\<forall>n. random_trials small_solver n < POP_SIZE small_solver) \<and>
   mutation 0 small_solver = None \<and>
   while_it2 (\<lambda>n. n mod 2) 0 1 0 0 = None \<and>
   (\<exists>r. trial_indices (\<lambda>n. if n < 3 then n else 0) 0 = Some r) \<and>
   (\<exists>s'. mutation 0 example_solver = Some s')"
proof -
  have a: "POP_SIZE small_solver < 3" "\<forall>n. random_trials small_solver n < POP_SIZE small_solver"
    by (simp_all add: small_solver_def)
  have b: "(2::nat) < 3" "\<forall>n. n mod 2 < (2::nat)" "(0::nat) < 2" "(1::nat) < 2" "(1::nat) \<noteq> 0"
    by simp_all
  have "(0::nat) < 1 \<and> (1::nat) < 2 \<and>
        (if (1::nat) < 3 then 1 else 0) \<noteq> (if (0::nat) < 3 then 0 else (0::nat)) \<and>
        (if (2::nat) < 3 then 2 else 0) \<noteq> (if (0::nat) < 3 then 0 else (0::nat)) \<and>
        (if (2::nat) < 3 then 2 else 0) \<noteq> (if (1::nat) < 3 then 1 else (0::nat))"
    by simp
  then have c: "\<exists>m>0. \<exists>m'>m.
      (if m < 3 then m else 0) \<noteq> (if (0::nat) < 3 then 0 else (0::nat)) \<and>
      (if m' < 3 then m' else 0) \<noteq> (if (0::nat) < 3 then 0 else (0::nat)) \<and>
      (if m' < 3 then m' else 0) \<noteq> (if m < 3 then m else 0)"
    by blast
  have "trials_drawn example_solver < 2 \<and> (2::nat) < 5 \<and>
        random_trials example_solver 2 \<noteq> random_trials example_solver (trials_drawn example_solver) \<and>
        random_trials example_solver 5 \<noteq> random_trials example_solver (trials_drawn example_solver) \<and>
        random_trials example_solver 5 \<noteq> random_trials example_solver 2"
    by (simp add: example_solver_def)
  then have d: "\<exists>m>trials_drawn example_solver. \<exists>m'>m.
          random_trials example_solver m \<noteq> random_trials example_solver (trials_drawn example_solver) \<and>
          random_trials example_solver m' \<noteq> random_trials example_solver (trials_drawn example_solver) \<and>
          random_trials example_solver m' \<noteq> random_trials example_solver m"
    by blast
  note t = degenerate_share_size[where s = small_solver and i = 0 and N = 2
      and rs = "\<lambda>n. n mod 2" and ?it0.0 = 0 and ?it1.0 = 1 and ?it2.0 = 0 and p = 0
      and pos = 0 and rs' = "\<lambda>n. if n < 3 then n else 0"]
  note t' = degenerate_share_size[where s = example_solver and i = 0]
  from t a have r1: "mutation 0 small_solver = None" by blast
  from t b have r2: "while_it2 (\<lambda>n. n mod 2) 0 1 0 0 = None" by blast
  from t c have r3: "\<exists>r. trial_indices (\<lambda>n. if n < 3 then n else 0) 0 = Some r" by blast
  from t' d have r4: "\<exists>s'. mutation 0 example_solver = Some s'" by blast
  from a r1 r2 r3 r4 show ?thesis by (intro conjI)
qed

subsection \<open>The trial candidate\<close>

lemma combine_cong:
  "pop_trials s' = pop_trials s \<Longrightarrow> base_de s' = base_de s \<Longrightarrow> combine s' j = combine s j"
  by (simp add: combine_def)

lemma crossover_frame:
  "population (crossover i ks j s) = population s \<and>
   pop_errors (crossover i ks j s) = pop_errors s \<and>
   pop_trials (crossover i ks j s) = pop_trials s \<and>
   base_de (crossover i ks j s) = base_de s \<and>
   POP_DIM (crossover i ks j s) = POP_DIM s \<and>
   POP_SIZE (crossover i ks j s) = POP_SIZE s \<and>
   best_candidate (crossover i ks j s) = best_candidate s \<and>
   random_cr (crossover i ks j s) = random_cr s \<and>
   random_trials (crossover i ks j s) = random_trials s \<and>
   trials_drawn (crossover i ks j s) = trials_drawn s \<and>
   random_j (crossover i ks j s) = random_j s \<and>
   j_drawn (crossover i ks j s) = j_drawn s \<and>
   length (pop_candidate (crossover i ks j s)) = length (pop_candidate s) \<and>
   cr_drawn (crossover i ks j s) = cr_drawn s + length ks"
  by (induction ks arbitrary: j s) (simp_all add: Let_def)

lemma mod_shift_neq:
  fixes j t D :: nat
  assumes "j < D" "0 < t" "t < D"
  shows "(j + t) mod D \<noteq> j"
proof (cases "j + t < D")
  case True
  with assms show ?thesis by simp
next
  case False
  with assms have "(j + t) mod D = j + t - D" by (simp add: mod_if)
  with assms False show ?thesis by arith
qed

lemma mod_step:
  fixes j m D :: nat
  shows "((j + 1) mod D + m) mod D = (j + Suc m) mod D"
proof -
  have "((j + 1) mod D + m) mod D = ((j + 1) + m) mod D" by (rule mod_add_left_eq)
  then show ?thesis by (simp add: ac_simps)
qed

lemma crossover_untouched:
  "\<forall>m<length ks. x \<noteq> (j + m) mod POP_DIM s \<Longrightarrow> j < POP_DIM s \<Longrightarrow>
     pop_candidate (crossover i ks j s) ! x = pop_candidate s ! x"
proof (induction ks arbitrary: j s)
  case Nil
  then show ?case by simp
next
  case (Cons k ks)
  from Cons.prems(1) have xj: "x \<noteq> j" using Cons.prems(2) by (auto dest: spec[of _ 0])
  have later: "\<forall>m<length ks. x \<noteq> ((j + 1) mod POP_DIM s + m) mod POP_DIM s"
  proof (intro allI impI)
    fix m assume "m < length ks"
    with Cons.prems(1) have "x \<noteq> (j + Suc m) mod POP_DIM s" by auto
    then show "x \<noteq> ((j + 1) mod POP_DIM s + m) mod POP_DIM s"
      by (simp only: mod_step) simp
  qed
  have jlt: "(j + 1) mod POP_DIM s < POP_DIM s" using Cons.prems(2) by simp
  show ?case
    using Cons.IH[of "(j + 1) mod POP_DIM s"] later jlt xj
    by (simp add: Let_def)
qed

lemma crossover_Cons:
  "crossover i (k # ks) j s =
     crossover i ks ((j + 1) mod POP_DIM s)
       (s\<lparr>cr_drawn := Suc (cr_drawn s),
          pop_candidate := (pop_candidate s)
            [j := (if random_cr s (cr_drawn s) \<le> kCR (base_de s) then combine s j
                   else population s ! i ! j)]\<rparr>)"
  by (simp add: Let_def combine_def)

lemma crossover_visited:
  "m < length ks \<Longrightarrow> length ks \<le> POP_DIM s \<Longrightarrow> j < POP_DIM s \<Longrightarrow>
   length (pop_candidate s) = POP_DIM s \<Longrightarrow>
     pop_candidate (crossover i ks j s) ! ((j + m) mod POP_DIM s) =
       (if random_cr s (cr_drawn s + m) \<le> kCR (base_de s)
        then combine s ((j + m) mod POP_DIM s)
        else population s ! i ! ((j + m) mod POP_DIM s))"
proof (induction ks arbitrary: j s m)
  case Nil
  then show ?case by simp
next
  case (Cons k ks)
  let ?D = "POP_DIM s"
  let ?j' = "(j + 1) mod ?D"
  define v where "v = (if random_cr s (cr_drawn s) \<le> kCR (base_de s) then combine s j
                   else population s ! i ! j)"
  define s2 where "s2 = s\<lparr>cr_drawn := Suc (cr_drawn s), pop_candidate := (pop_candidate s)[j := v]\<rparr>"
  have step: "crossover i (k # ks) j s = crossover i ks ?j' s2"
    unfolding s2_def v_def by (rule crossover_Cons)
  have s2: "POP_DIM s2 = ?D" "cr_drawn s2 = Suc (cr_drawn s)" "random_cr s2 = random_cr s"
    "base_de s2 = base_de s" "population s2 = population s" "pop_trials s2 = pop_trials s"
    "length (pop_candidate s2) = ?D" "pop_candidate s2 ! j = v"
    using Cons.prems by (simp_all add: s2_def)
  have jlt: "?j' < POP_DIM s2" using Cons.prems(3) s2 by simp
  show ?case
  proof (cases m)
    case 0
    have "\<forall>m'<length ks. j \<noteq> (?j' + m') mod POP_DIM s2"
    proof (intro allI impI)
      fix m' assume "m' < length ks"
      with Cons.prems(2) have "0 < Suc m'" "Suc m' < ?D" by auto
      from mod_shift_neq[OF Cons.prems(3) this] have "(j + Suc m') mod ?D \<noteq> j" .
      then show "j \<noteq> (?j' + m') mod POP_DIM s2"
        unfolding s2(1) by (simp only: mod_step)
    qed
    from crossover_untouched[OF this jlt, of i]
    have "pop_candidate (crossover i ks ?j' s2) ! j = v" using s2 by simp
    then show ?thesis using 0 Cons.prems(3) by (simp only: step) (simp add: v_def)
  next
    case (Suc m')
    have pos: "(j + m) mod ?D = (?j' + m') mod POP_DIM s2"
      unfolding s2(1) using Suc by (simp only: mod_step)
    from Suc Cons.prems have "m' < length ks" "length ks \<le> POP_DIM s2" by (simp_all add: s2)
    from Cons.IH[OF this jlt] s2
    have "pop_candidate (crossover i ks ?j' s2) ! ((?j' + m') mod POP_DIM s2) =
       (if random_cr s2 (cr_drawn s2 + m') \<le> kCR (base_de s2)
        then combine s2 ((?j' + m') mod POP_DIM s2)
        else population s2 ! i ! ((?j' + m') mod POP_DIM s2))" by simp
    moreover have "combine s2 x = combine s x" for x by (simp add: combine_def s2)
    ultimately show ?thesis
      unfolding step pos using Suc by (simp add: s2)
  qed
qed


lemma mutation_SomeE:
  assumes "mutation i s = Some s'"
  obtains it0 it1 it2 pos s3 where
    "trial_indices (random_trials s) (trials_drawn s) = Some ((it0, it1, it2), pos)"
    "s3 = s\<lparr>j_drawn := Suc (j_drawn s), trials_drawn := pos,
               pop_trials := [map (\<lambda>d. population s ! it0 ! d) [0..<POP_DIM s],
                              map (\<lambda>d. population s ! it1 ! d) [0..<POP_DIM s],
                              map (\<lambda>d. population s ! it2 ! d) [0..<POP_DIM s]]\<rparr>"
    "s' = crossover i [1..<POP_DIM s] ((random_j s (j_drawn s) + 1) mod POP_DIM s)
            (s3\<lparr>pop_candidate := (pop_candidate s)
                 [random_j s (j_drawn s) := combine s3 (random_j s (j_drawn s))]\<rparr>)"
  using assms that
  by (auto simp: mutation_def Let_def combine_def split: option.splits)

lemma mutation_frame:
  assumes "mutation i s = Some s'"
  shows "population s' = population s \<and> pop_errors s' = pop_errors s \<and>
         POP_DIM s' = POP_DIM s \<and> POP_SIZE s' = POP_SIZE s \<and> base_de s' = base_de s \<and>
         best_candidate s' = best_candidate s \<and>
         random_cr s' = random_cr s \<and> random_trials s' = random_trials s \<and>
         random_j s' = random_j s \<and> j_drawn s' = Suc (j_drawn s) \<and>
         length (pop_candidate s') = length (pop_candidate s)"
  using assms by (elim mutation_SomeE) (simp add: crossover_frame)

text \<open>
  Claim C5. When \<^verbatim>\<open>mutation(i)\<close> returns, with \<open>j0\<close> the dimension drawn from
  \<^verbatim>\<open>random_j_\<close> and \<open>it0\<close>, \<open>it1\<close>, \<open>it2\<close> the trial indices: dimension \<open>j0\<close> of
  the trial is \<open>population[it0][j0] + F * (population[it1][j0] - population[it2][j0])\<close>;
  each of the other \<open>D - 1\<close> dimensions \<open>(j0 + k) mod D\<close>, \<open>k = 1 .. D - 1\<close>, is the
  same formula at that dimension if the \<open>k\<close>-th draw from \<^verbatim>\<open>random_cr_\<close> is at most
  \<open>CR\<close> and \<open>population[i]\<close> at that dimension otherwise; exactly \<open>D - 1\<close> values
  are drawn from \<^verbatim>\<open>random_cr_\<close> and one from \<^verbatim>\<open>random_j_\<close>; the population and the
  errors are not touched.
\<close>

theorem mutation_trial_construction:
  assumes "mutation i s = Some s'"
    and "random_j s (j_drawn s) < POP_DIM s"
    and "length (pop_candidate s) = POP_DIM s"
  shows "\<exists>it0 it1 it2 pos.
     trial_indices (random_trials s) (trials_drawn s) = Some ((it0, it1, it2), pos) \<and>
     (let D = POP_DIM s; j0 = random_j s (j_drawn s);
          v = (\<lambda>j. population s ! it0 ! j
                      + kF (base_de s) * (population s ! it1 ! j - population s ! it2 ! j))
      in pop_candidate s' ! j0 = v j0 \<and>
         (\<forall>k. 1 \<le> k \<and> k < D \<longrightarrow>
            (j0 + k) mod D \<noteq> j0 \<and>
            pop_candidate s' ! ((j0 + k) mod D) =
              (if random_cr s (cr_drawn s + (k - 1)) \<le> kCR (base_de s)
               then v ((j0 + k) mod D)
               else population s ! i ! ((j0 + k) mod D))) \<and>
         cr_drawn s' = cr_drawn s + (D - 1) \<and>
         j_drawn s' = Suc (j_drawn s) \<and>
         trials_drawn s' = pos \<and>
         length (pop_candidate s') = D \<and>
         population s' = population s \<and> pop_errors s' = pop_errors s)"
proof -
  let ?D = "POP_DIM s"
  let ?j0 = "random_j s (j_drawn s)"
  from assms(1) obtain it0 it1 it2 pos s3 where
    ti: "trial_indices (random_trials s) (trials_drawn s) = Some ((it0, it1, it2), pos)" and
    s3: "s3 = s\<lparr>j_drawn := Suc (j_drawn s), trials_drawn := pos,
               pop_trials := [map (\<lambda>d. population s ! it0 ! d) [0..<POP_DIM s],
                              map (\<lambda>d. population s ! it1 ! d) [0..<POP_DIM s],
                              map (\<lambda>d. population s ! it2 ! d) [0..<POP_DIM s]]\<rparr>" and
    s': "s' = crossover i [1..<?D] ((?j0 + 1) mod ?D)
            (s3\<lparr>pop_candidate := (pop_candidate s)[?j0 := combine s3 ?j0]\<rparr>)"
    by (rule mutation_SomeE)
  define v where "v = (\<lambda>j. population s ! it0 ! j
                      + kF (base_de s) * (population s ! it1 ! j - population s ! it2 ! j))"
  define s4 where "s4 = s3\<lparr>pop_candidate := (pop_candidate s)[?j0 := combine s3 ?j0]\<rparr>"
  have comb: "combine s4 j = v j" if "j < ?D" for j
    using that by (simp add: combine_def s4_def s3 v_def)
  have comb3: "combine s3 j = v j" if "j < ?D" for j
    using that by (simp add: combine_def s3 v_def)
  have s4: "POP_DIM s4 = ?D" "cr_drawn s4 = cr_drawn s" "random_cr s4 = random_cr s"
    "base_de s4 = base_de s" "population s4 = population s" "pop_errors s4 = pop_errors s"
    "length (pop_candidate s4) = ?D" "pop_candidate s4 ! ?j0 = v ?j0"
    "j_drawn s4 = Suc (j_drawn s)" "trials_drawn s4 = pos"
    using assms(2,3) comb3 by (simp_all add: s4_def s3)
  have s'4: "s' = crossover i [1..<?D] ((?j0 + 1) mod ?D) s4" by (simp add: s' s4_def)
  have jlt: "(?j0 + 1) mod ?D < POP_DIM s4" using assms(2) s4 by simp
  have first: "pop_candidate s' ! ?j0 = v ?j0"
  proof -
    have "\<forall>m<length [1..<?D]. ?j0 \<noteq> ((?j0 + 1) mod ?D + m) mod POP_DIM s4"
    proof (intro allI impI)
      fix m assume "m < length [1..<?D]"
      then have "0 < Suc m" "Suc m < ?D" by auto
      from mod_shift_neq[OF assms(2) this] show "?j0 \<noteq> ((?j0 + 1) mod ?D + m) mod POP_DIM s4"
        unfolding s4(1) by (simp only: mod_step)
    qed
    from crossover_untouched[OF this jlt, of i] show ?thesis by (simp add: s'4 s4)
  qed
  have rest: "(?j0 + k) mod ?D \<noteq> ?j0 \<and>
      pop_candidate s' ! ((?j0 + k) mod ?D) =
        (if random_cr s (cr_drawn s + (k - 1)) \<le> kCR (base_de s)
         then v ((?j0 + k) mod ?D) else population s ! i ! ((?j0 + k) mod ?D))"
    if k: "1 \<le> k" "k < ?D" for k
  proof -
    from k obtain m where m: "k = Suc m" by (cases k) auto
    have pos: "(?j0 + k) mod ?D = ((?j0 + 1) mod ?D + m) mod POP_DIM s4"
      unfolding s4(1) m by (simp only: mod_step)
    have lt: "(?j0 + k) mod ?D < ?D" using assms(2) by simp
    from k m have "m < length [1..<?D]" "length [1..<?D] \<le> POP_DIM s4" by (simp_all add: s4)
    from crossover_visited[OF this jlt s4(7)[folded s4(1)], of i]
    have "pop_candidate s' ! ((?j0 + k) mod ?D) =
        (if random_cr s (cr_drawn s + m) \<le> kCR (base_de s)
         then combine s4 ((?j0 + k) mod ?D) else population s ! i ! ((?j0 + k) mod ?D))"
      unfolding s'4 pos[symmetric] by (simp add: s4)
    moreover from k have "0 < k" by simp
    from mod_shift_neq[OF assms(2) this k(2)] have "(?j0 + k) mod ?D \<noteq> ?j0" .
    ultimately show ?thesis using comb[OF lt] m by simp
  qed
  have fr: "cr_drawn s' = cr_drawn s + (?D - 1)" "j_drawn s' = Suc (j_drawn s)"
    "trials_drawn s' = pos" "length (pop_candidate s') = ?D"
    "population s' = population s" "pop_errors s' = pop_errors s"
    by (simp_all add: s'4 crossover_frame s4)
  show ?thesis
    apply (intro exI conjI)
     apply (rule ti)
    unfolding Let_def v_def[symmetric]
    using first rest fr by auto
qed

subsection \<open>A run of the concrete solver\<close>

lemma example_mutation: "mutation 0 example_solver = Some example_solver_mutated"
  by (simp add: example_solver_def example_solver_mutated_def example_base_def mutation_def
      trial_indices_def while_it1.simps while_it2.simps combine_def Let_def upt_conv_Cons)

lemma example_generation: "run SOLVE_GENERATION example_solver = Some example_solver_evolved"
  by (simp add: example_solver_def example_solver_evolved_def example_base_def mutation_def
      trial_indices_def while_it1.simps while_it2.simps select_def combine_def Let_def upt_conv_Cons)

lemma example_wf: "wf_solver example_solver"
  by (simp add: wf_solver_def example_solver_def)

theorem mutation_trial_construction_witness:
  "mutation 0 example_solver = Some example_solver_mutated \<and>
   random_j example_solver (j_drawn example_solver) < POP_DIM example_solver \<and>
   length (pop_candidate example_solver) = POP_DIM example_solver \<and>
   trial_indices (random_trials example_solver) (trials_drawn example_solver) = Some ((1, 2, 3), 6) \<and>
   pop_candidate example_solver_mutated ! 0 = 9 + 1 * (3 - 6) \<and>
   pop_candidate example_solver_mutated ! 1 = 1 + 1 * (9 - 6) \<and>
   cr_drawn example_solver_mutated = cr_drawn example_solver + 1"
proof -
  have h: "random_j example_solver (j_drawn example_solver) < POP_DIM example_solver"
    "length (pop_candidate example_solver) = POP_DIM example_solver"
    by (simp_all add: example_solver_def)
  have t: "trial_indices (random_trials example_solver) (trials_drawn example_solver) = Some ((1, 2, 3), 6)"
    by (simp add: example_solver_def trial_indices_def while_it1.simps while_it2.simps)
  from mutation_trial_construction[OF example_mutation h]
  have "pop_candidate example_solver_mutated ! 0 = 9 + 1 * (3 - 6) \<and>
        pop_candidate example_solver_mutated ! 1 = 1 + 1 * (9 - 6) \<and>
        cr_drawn example_solver_mutated = cr_drawn example_solver + 1"
    unfolding t by (simp add: Let_def example_solver_def example_base_def)
  with example_mutation h t show ?thesis by simp
qed

subsection \<open>Selection and the generation loop\<close>

lemma select_frame:
  "POP_DIM (select i s) = POP_DIM s \<and> POP_SIZE (select i s) = POP_SIZE s \<and>
   base_de (select i s) = base_de s \<and> pop_candidate (select i s) = pop_candidate s \<and>
   length (population (select i s)) = length (population s) \<and>
   length (pop_errors (select i s)) = length (pop_errors s)"
  by (simp add: select_def Let_def)

lemma select_other:
  "k \<noteq> i \<Longrightarrow> population (select i s) ! k = population s ! k \<and>
                pop_errors (select i s) ! k = pop_errors s ! k"
  by (simp add: select_def Let_def)

lemma select_slot:
  assumes "i < length (population s)" "i < length (pop_errors s)"
    and "length (pop_candidate s) = POP_DIM s"
  shows "(population (select i s) ! i = population s ! i \<and>
          pop_errors (select i s) ! i = pop_errors s ! i) \<or>
         (callback_error_evaluation (base_de s) (pop_errors (select i s) ! i) (pop_errors s ! i) \<and>
          pop_errors (select i s) ! i = callback_calc_error (base_de s) (population (select i s) ! i) \<and>
          population (select i s) ! i = pop_candidate s)"
proof -
  have "map (\<lambda>d. pop_candidate s ! d) [0..<POP_DIM s] = pop_candidate s"
    using assms(3) by (metis map_nth)
  with assms show ?thesis by (simp add: select_def Let_def)
qed


lemma evolve_slots_frame:
  "evolve_slots is s = Some s' \<Longrightarrow>
     POP_DIM s' = POP_DIM s \<and> POP_SIZE s' = POP_SIZE s \<and> base_de s' = base_de s \<and>
     length (population s') = length (population s) \<and>
     length (pop_errors s') = length (pop_errors s) \<and>
     length (pop_candidate s') = length (pop_candidate s)"
proof (induction "is" arbitrary: s)
  case Nil
  then show ?case by simp
next
  case (Cons i "is")
  from Cons.prems obtain s1 where m: "mutation i s = Some s1"
    and r: "evolve_slots is (select i s1) = Some s'"
    by (auto split: option.splits)
  from Cons.IH[OF r] mutation_frame[OF m] select_frame[of i s1] show ?case by simp
qed

lemma evolve_slots_untouched:
  "evolve_slots is s = Some s' \<Longrightarrow> k \<notin> set is \<Longrightarrow>
     population s' ! k = population s ! k \<and> pop_errors s' ! k = pop_errors s ! k"
proof (induction "is" arbitrary: s)
  case Nil
  then show ?case by simp
next
  case (Cons i "is")
  from Cons.prems obtain s1 where m: "mutation i s = Some s1"
    and r: "evolve_slots is (select i s1) = Some s'"
    by (auto split: option.splits)
  from Cons.prems(2) have "k \<noteq> i" "k \<notin> set is" by auto
  from Cons.IH[OF r this(2)] select_other[OF this(1), of s1] mutation_frame[OF m]
  show ?case by simp
qed

lemma evolve_slots_slot:
  assumes "evolve_slots is s = Some s'" "distinct is" "k \<in> set is"
    and "\<forall>i\<in>set is. i < length (population s) \<and> i < length (pop_errors s)"
    and "length (pop_candidate s) = POP_DIM s"
  shows "(population s' ! k = population s ! k \<and> pop_errors s' ! k = pop_errors s ! k) \<or>
         (callback_error_evaluation (base_de s) (pop_errors s' ! k) (pop_errors s ! k) \<and>
          pop_errors s' ! k = callback_calc_error (base_de s) (population s' ! k))"
  using assms
proof (induction "is" arbitrary: s)
  case Nil
  then show ?case by simp
next
  case (Cons i "is")
  from Cons.prems(1) obtain s1 where m: "mutation i s = Some s1"
    and r: "evolve_slots is (select i s1) = Some s'"
    by (auto split: option.splits)
  note mf = mutation_frame[OF m]
  note sf = select_frame[of i s1]
  show ?case
  proof (cases "k = i")
    case True
    with Cons.prems(2) have "k \<notin> set is" by simp
    from evolve_slots_untouched[OF r this]
    have same: "population s' ! k = population (select i s1) ! k"
      "pop_errors s' ! k = pop_errors (select i s1) ! k" by simp_all
    from Cons.prems(4,5) mf have "i < length (population s1)" "i < length (pop_errors s1)"
      "length (pop_candidate s1) = POP_DIM s1" by simp_all
    from select_slot[OF this] same mf show ?thesis unfolding True by metis
  next
    case False
    with Cons.prems(3) have kin: "k \<in> set is" by simp
    from Cons.prems(2) have d: "distinct is" by simp
    from Cons.prems(4,5) mf sf
    have b: "\<forall>x\<in>set is. x < length (population (select i s1)) \<and> x < length (pop_errors (select i s1))"
      and l: "length (pop_candidate (select i s1)) = POP_DIM (select i s1)" by simp_all
    from Cons.IH[OF r d kin b l] select_other[OF False, of s1] mf sf
    show ?thesis by simp
  qed
qed

text \<open>
  Claim C4. After one \<open>SOLVE_GENERATION\<close> command, every slot \<open>i\<close> of the
  subpopulation is either unchanged, candidate and error, or holds a candidate
  whose error, as stored, is the error of that candidate and is better than the
  error stored before, by the ordering predicate of the Strategy.
\<close>

theorem evolve_generation_monotone:
  assumes "run SOLVE_GENERATION s = Some s'" and "wf_solver s" and "i < POP_SIZE s"
  shows "(population s' ! i = population s ! i \<and> pop_errors s' ! i = pop_errors s ! i) \<or>
         (callback_error_evaluation (base_de s) (pop_errors s' ! i) (pop_errors s ! i) \<and>
          pop_errors s' ! i = callback_calc_error (base_de s) (population s' ! i))"
proof -
  from assms(1) have e: "evolve_slots [0..<POP_SIZE s] s = Some s'" by simp
  from assms(2) have "\<forall>i\<in>set [0..<POP_SIZE s]. i < length (population s) \<and> i < length (pop_errors s)"
    "length (pop_candidate s) = POP_DIM s" by (simp_all add: wf_solver_def)
  from evolve_slots_slot[OF e _ _ this, of i] assms(3) show ?thesis by simp
qed

theorem evolve_generation_monotone_witness:
  "run SOLVE_GENERATION example_solver = Some example_solver_evolved \<and>
   wf_solver example_solver \<and> (0::nat) < POP_SIZE example_solver \<and> (2::nat) < POP_SIZE example_solver \<and>
   callback_error_evaluation (base_de example_solver)
     (pop_errors example_solver_evolved ! 0) (pop_errors example_solver ! 0) \<and>
   pop_errors example_solver_evolved ! 0 =
     callback_calc_error (base_de example_solver) (population example_solver_evolved ! 0) \<and>
   population example_solver_evolved ! 2 = population example_solver ! 2 \<and>
   pop_errors example_solver_evolved ! 2 = pop_errors example_solver ! 2"
proof -
  have n: "(0::nat) < POP_SIZE example_solver" "(2::nat) < POP_SIZE example_solver"
    by (simp_all add: example_solver_def)
  have c0: "population example_solver_evolved ! 0 \<noteq> population example_solver ! 0"
    and c2: "\<not> callback_error_evaluation (base_de example_solver)
     (pop_errors example_solver_evolved ! 2) (pop_errors example_solver ! 2)"
    by (simp_all add: example_solver_def example_solver_evolved_def example_base_def)
  from evolve_generation_monotone[OF example_generation example_wf n(1)] c0
    evolve_generation_monotone[OF example_generation example_wf n(2)] c2
    example_generation example_wf n
  show ?thesis by blast
qed




subsection \<open>The local best of a solver\<close>






subsection \<open>The global best of the Coordinator\<close>

text \<open>
  Claim C1. \<^verbatim>\<open>ThreadsDE::getBestCandidate\<close> reduces the local bests with the numeric
  \<^verbatim>\<open><\<close>, not with \<^verbatim>\<open>callback_error_evaluation_\<close>. For a Strategy that maximises,
  the two local bests of the concrete Coordinator are (50, [0, 0]) and (32, [1, 1]);
  the predicate judges 50 better than 32, and the result is (32, [1, 1]).
\<close>

theorem getBestCandidate_numeric_less:
  "fst (getBestCandidate int_to_double double_to_int example_coordinator_max) = (32, [1, 1]) \<and>
   map best_candidate
     (solvers (snd (getBestCandidate int_to_double double_to_int example_coordinator_max)))
     = [(50, [0, 0]), (32, [1, 1])] \<and>
   callback_error_evaluation (base_de (solvers example_coordinator_max ! 1)) 50 32"
  by (simp add: getBestCandidate_def broadcast_solveBestCandidate_def waitWork_def
      compute_local_best_def min_element_def example_coordinator_max_def example_coordinator_def
      example_solver_def example_solver2_def example_base_def int_to_double_def
      double_to_int_def upt_conv_Cons Let_def)

subsection \<open>Migration\<close>

lemma succ_mod_neq:
  fixes i n :: nat
  assumes "i < n" "2 \<le> n"
  shows "(i + 1) mod n \<noteq> i"
proof (cases "i + 1 < n")
  case True
  then show ?thesis by simp
next
  case False
  with assms have "i + 1 = n" by simp
  with assms show ?thesis by simp
qed

lemma migration_write_fields:
  "kMigrationPhi (migration_write i c) = kMigrationPhi c \<and>
   random_phi (migration_write i c) = random_phi c \<and>
   phi_drawn (migration_write i c) = phi_drawn c \<and>
   random_migration_index (migration_write i c) = random_migration_index c \<and>
   migration_index_drawn (migration_write i c) = Suc (migration_index_drawn c) \<and>
   length (solvers (migration_write i c)) = length (solvers c) \<and>
   trace (migration_write i c) =
     trace c @ [WaitWork i,
                PopulationWrite i ((i + 1) mod length (solvers c))
                  (random_migration_index c (migration_index_drawn c))] \<and>
   solvers (migration_write i c) =
     (solvers c)[(i + 1) mod length (solvers c) :=
        (solvers c ! ((i + 1) mod length (solvers c)))
          \<lparr>population := (population (solvers c ! ((i + 1) mod length (solvers c))))
             [random_migration_index c (migration_index_drawn c) :=
                snd (best_candidate (solvers c ! i))]\<rparr>]"
  by (simp add: migration_write_def waitWork_def Let_def)

lemma solveOneGeneration_migration:
  assumes "solveOneGeneration c = Some c'"
  shows "\<exists>c1. broadcast_solveOneGeneration [0..<length (solvers c)] c = Some c1 \<and>
              c' = migration (c1\<lparr>trace := trace c1 @ map WaitWork [0..<length (solvers c1)]\<rparr>)"
  using assms by (auto simp: solveOneGeneration_def split: option.splits)

text \<open>
  Claim C10, as amended. One migration write for solver \<open>i\<close> overwrites row \<open>mi\<close> of
  the population of the ring successor \<open>(i + 1) mod n\<close> with the local best candidate
  of solver \<open>i\<close> and changes nothing else: every solver other than the successor is
  unchanged, among them the source when there are at least two solvers; the
  successor keeps its errors, its local best, the size of its population and every
  row other than \<open>mi\<close>.
\<close>

theorem migration_write_frame:
  assumes "i < length (solvers c)"
  shows "let n = length (solvers c);
             dst = (i + 1) mod n;
             mi = random_migration_index c (migration_index_drawn c);
             bc = snd (best_candidate (solvers c ! i));
             c' = migration_write i c
         in length (solvers c') = n \<and>
            (\<forall>k<n. k \<noteq> dst \<longrightarrow> solvers c' ! k = solvers c ! k) \<and>
            (2 \<le> n \<longrightarrow> dst \<noteq> i \<and> solvers c' ! i = solvers c ! i) \<and>
            solvers c' ! dst = (solvers c ! dst)\<lparr>population := (population (solvers c ! dst))[mi := bc]\<rparr> \<and>
            pop_errors (solvers c' ! dst) = pop_errors (solvers c ! dst) \<and>
            best_candidate (solvers c' ! dst) = best_candidate (solvers c ! dst) \<and>
            length (population (solvers c' ! dst)) = length (population (solvers c ! dst)) \<and>
            (\<forall>r. r \<noteq> mi \<longrightarrow> population (solvers c' ! dst) ! r = population (solvers c ! dst) ! r) \<and>
            (mi < length (population (solvers c ! dst)) \<longrightarrow> population (solvers c' ! dst) ! mi = bc)"
proof -
  let ?n = "length (solvers c)"
  let ?dst = "(i + 1) mod ?n"
  from assms have "0 < ?n" by (cases "solvers c") simp_all
  then have dst: "?dst < ?n" by (rule mod_less_divisor)
  have ne: "?dst \<noteq> i" if "2 \<le> ?n" using succ_mod_neq[OF assms that] .
  show ?thesis
    unfolding Let_def using dst ne by (simp add: migration_write_fields)
qed

text \<open>
  The calls of \<^verbatim>\<open>migration\<close> and its draws, for every Coordinator: after the
  requests, solver \<open>i\<close> is waited on, and its local best written to its ring
  successor, exactly when the \<open>i\<close>-th draw from \<^verbatim>\<open>random_phi_\<close> is below
  \<^verbatim>\<open>kMigrationPhi_\<close>.
\<close>

lemma migration_loop_trace:
  fixes c cur :: "('a, 'e) ThreadsDE"
  assumes hit: "hit = (\<lambda>i. random_phi c (phi_drawn c + i) < kMigrationPhi c)"
    and slot: "slot = (\<lambda>i. random_migration_index c
                        (migration_index_drawn c + length (filter hit [0..<i])))"
    and g: "g = (\<lambda>i. if hit i then [WaitWork i, PopulationWrite i ((i + 1) mod n) (slot i)] else [])"
  shows "a \<le> n \<Longrightarrow> length (solvers cur) = n \<Longrightarrow>
     random_phi cur = random_phi c \<Longrightarrow> kMigrationPhi cur = kMigrationPhi c \<Longrightarrow>
     random_migration_index cur = random_migration_index c \<Longrightarrow>
     phi_drawn cur = phi_drawn c + a \<Longrightarrow>
     migration_index_drawn cur = migration_index_drawn c + length (filter hit [0..<a]) \<Longrightarrow>
     trace (migration_loop [a..<n] cur) = trace cur @ concat (map g [a..<n]) \<and>
     phi_drawn (migration_loop [a..<n] cur) = phi_drawn c + n \<and>
     migration_index_drawn (migration_loop [a..<n] cur) =
       migration_index_drawn c + length (filter hit [0..<n])"
proof (induction "n - a" arbitrary: a cur)
  case 0
  then have "a = n" by simp
  with 0 show ?case by simp
next
  case (Suc d)
  then have lt: "a < n" by simp
  then have unf: "[a..<n] = a # [Suc a..<n]" by (rule upt_conv_Cons)
  have d: "d = n - Suc a" using Suc.hyps(2) by simp
  have le: "Suc a \<le> n" using lt by simp
  define cur0 where "cur0 = cur\<lparr>phi_drawn := Suc (phi_drawn cur)\<rparr>"
  define cur1 where "cur1 = (if hit a then migration_write a cur0 else cur0)"
  have hita: "(random_phi cur (phi_drawn cur) < kMigrationPhi cur0) = hit a"
    using Suc.prems by (simp add: hit cur0_def)
  have step: "migration_loop [a..<n] cur = migration_loop [Suc a..<n] cur1"
    unfolding unf using hita by (simp add: Let_def cur1_def cur0_def)
  have c0: "length (solvers cur0) = n" "random_phi cur0 = random_phi c"
    "kMigrationPhi cur0 = kMigrationPhi c" "random_migration_index cur0 = random_migration_index c"
    "phi_drawn cur0 = phi_drawn c + Suc a"
    "migration_index_drawn cur0 = migration_index_drawn c + length (filter hit [0..<a])"
    "trace cur0 = trace cur"
    using Suc.prems by (simp_all add: cur0_def)
  have slota: "random_migration_index cur0 (migration_index_drawn cur0) = slot a"
    by (simp add: c0 slot)
  note mw = migration_write_fields[of a cur0, unfolded slota c0(1)]
  have c1: "length (solvers cur1) = n" "random_phi cur1 = random_phi c"
    "kMigrationPhi cur1 = kMigrationPhi c" "random_migration_index cur1 = random_migration_index c"
    "phi_drawn cur1 = phi_drawn c + Suc a"
    by (simp_all add: cur1_def mw c0)
  have c1m: "migration_index_drawn cur1 = migration_index_drawn c + length (filter hit [0..<Suc a])"
    by (simp add: cur1_def mw c0)
  have c1t: "trace cur1 = trace cur @ g a"
    by (simp add: cur1_def mw c0 g)
  have e1: "concat (map g [a..<n]) = g a @ concat (map g [Suc a..<n])"
    by (subst unf) simp
  from Suc.hyps(1)[OF d le c1(1,2,3,4,5) c1m]
  show ?case unfolding step e1 by (simp add: c1t)
qed

lemma migration_trace:
  fixes c :: "('a, 'e) ThreadsDE"
  shows "let n = length (solvers c);
       hit = (\<lambda>i. random_phi c (phi_drawn c + i) < kMigrationPhi c);
       slot = (\<lambda>i. random_migration_index c
                      (migration_index_drawn c + length (filter hit [0..<i])));
       c' = migration c
   in trace c' =
        trace c @ map SolveBestCandidate [0..<n] @
        concat (map (\<lambda>i. if hit i
                            then [WaitWork i, PopulationWrite i ((i + 1) mod n) (slot i)]
                            else []) [0..<n]) \<and>
      phi_drawn c' = phi_drawn c + n \<and>
      migration_index_drawn c' = migration_index_drawn c + length (filter hit [0..<n])"
proof -
  define n where "n = length (solvers c)"
  define hit where "hit = (\<lambda>i. random_phi c (phi_drawn c + i) < kMigrationPhi c)"
  define slot where "slot = (\<lambda>i. random_migration_index c
                        (migration_index_drawn c + length (filter hit [0..<i])))"
  define g where "g = (\<lambda>i. if hit i then [WaitWork i, PopulationWrite i ((i + 1) mod n) (slot i)] else [])"
  define c0 where "c0 = broadcast_solveBestCandidate c"
  have c0: "length (solvers c0) = n" "random_phi c0 = random_phi c"
    "kMigrationPhi c0 = kMigrationPhi c" "random_migration_index c0 = random_migration_index c"
    "phi_drawn c0 = phi_drawn c + 0"
    "migration_index_drawn c0 = migration_index_drawn c + length (filter hit [0..<0])"
    by (simp_all add: c0_def broadcast_solveBestCandidate_def n_def)
  have c0t: "trace c0 = trace c @ map SolveBestCandidate [0..<n]"
    by (simp add: c0_def broadcast_solveBestCandidate_def n_def)
  have m: "migration c = migration_loop [0..<n] c0"
    by (simp add: migration_def Let_def c0_def[symmetric] c0(1))
  from migration_loop_trace[OF hit_def slot_def g_def _ c0]
  have "trace (migration c) = trace c @ map SolveBestCandidate [0..<n] @ concat (map g [0..<n]) \<and>
     phi_drawn (migration c) = phi_drawn c + n \<and>
     migration_index_drawn (migration c) =
       migration_index_drawn c + length (filter hit [0..<n])"
    unfolding m c0t by simp
  then show ?thesis
    unfolding Let_def g_def slot_def hit_def n_def .
qed

lemma migration_waits_only_if:
  fixes c :: "('a, 'e) ThreadsDE"
  assumes "trace c = []"
  shows "WaitWork i \<in> set (trace (migration c)) \<longleftrightarrow>
         i < length (solvers c) \<and> random_phi c (phi_drawn c + i) < kMigrationPhi c"
  using migration_trace[of c] assms by (auto simp: Let_def split: if_splits)

subsection \<open>Migration on the concrete Coordinators\<close>

lemma example_broadcast:
  "broadcast_solveBestCandidate example_coordinator =
     example_coordinator
       \<lparr>solvers := [example_solver\<lparr>best_candidate := (2, [6, 6])\<rparr>,
                    example_solver2\<lparr>best_candidate := (1, [5, 4])\<rparr>],
        trace := [SolveBestCandidate 0, SolveBestCandidate 1]\<rparr>"
  by (simp add: broadcast_solveBestCandidate_def compute_local_best_def min_element_def
      example_coordinator_def example_solver_def example_solver2_def example_base_def
      upt_conv_Cons Let_def)

text \<open>
  Claim C2. The claim has the Coordinator wait on every solver during migration.
  \<^verbatim>\<open>migration\<close> calls \<^verbatim>\<open>waitWork\<close> inside the \<^verbatim>\<open>if\<close> on the draw of \<^verbatim>\<open>random_phi_\<close>
  (lines 407 and 408), so a solver whose draw is not below \<^verbatim>\<open>kMigrationPhi_\<close> is not
  waited on, although its command was requested with all the others. With two
  solvers and the draws 0.25 and 0.75 against the probability 0.5, solver 0
  migrates to its ring successor and solver 1 is never waited on; with the
  probability 0 no solver is waited on at all.
\<close>

theorem migration_skips_wait:
  "length (solvers example_coordinator) = 2 \<and>
   trace (migration example_coordinator) =
     [SolveBestCandidate 0, SolveBestCandidate 1, WaitWork 0, PopulationWrite 0 1 2] \<and>
   WaitWork 1 \<notin> set (trace (migration example_coordinator)) \<and>
   trace (migration (example_coordinator\<lparr>kMigrationPhi := 0\<rparr>)) =
     [SolveBestCandidate 0, SolveBestCandidate 1]"
proof -
  have t: "trace (migration example_coordinator) =
     [SolveBestCandidate 0, SolveBestCandidate 1, WaitWork 0, PopulationWrite 0 1 2]"
    unfolding migration_def Let_def example_broadcast
    by (simp add: migration_write_def waitWork_def example_coordinator_def upt_conv_Cons Let_def)
  have t0: "trace (migration (example_coordinator\<lparr>kMigrationPhi := 0\<rparr>)) =
     [SolveBestCandidate 0, SolveBestCandidate 1]"
    by (simp add: migration_def broadcast_solveBestCandidate_def example_coordinator_def
        upt_conv_Cons Let_def)
  have "length (solvers example_coordinator) = 2" by (simp add: example_coordinator_def)
  with t t0 show ?thesis by simp
qed

text \<open>
  With a single solver the ring successor of solver 0 is solver 0: the write
  changes the population of its source.
\<close>

theorem migration_write_frame_counterexample:
  "population (solvers (broadcast_solveBestCandidate single_coordinator) ! 0) =
     [[0, 0], [9, 1], [3, 9], [6, 6]] \<and>
   population (solvers (migration_write 0 (broadcast_solveBestCandidate single_coordinator)) ! 0) =
     [[0, 0], [9, 1], [6, 6], [6, 6]]"
  by (simp add: migration_write_def waitWork_def broadcast_solveBestCandidate_def
      compute_local_best_def min_element_def single_coordinator_def
      example_coordinator_def example_solver_def example_base_def upt_conv_Cons Let_def)

theorem migration_write_frame_witness:
  "0 < length (solvers (broadcast_solveBestCandidate example_coordinator)) \<and>
   2 \<le> length (solvers (broadcast_solveBestCandidate example_coordinator)) \<and>
   solvers (migration_write 0 (broadcast_solveBestCandidate example_coordinator)) ! 0 =
     solvers (broadcast_solveBestCandidate example_coordinator) ! 0 \<and>
   population (solvers (migration_write 0 (broadcast_solveBestCandidate example_coordinator)) ! 1) =
     [[1, 1], [2, 2], [6, 6], [5, 4]] \<and>
   pop_errors (solvers (migration_write 0 (broadcast_solveBestCandidate example_coordinator)) ! 1) =
     [32, 18, 8, 1]"
proof -
  let ?c = "broadcast_solveBestCandidate example_coordinator"
  have n: "length (solvers ?c) = 2" unfolding example_broadcast by simp
  then have h: "0 < length (solvers ?c)" "2 \<le> length (solvers ?c)" by simp_all
  have v: "random_migration_index ?c (migration_index_drawn ?c) = 2"
    "snd (best_candidate (solvers ?c ! 0)) = [6, 6]"
    "population (solvers ?c ! Suc 0) = [[1, 1], [2, 2], [7, 7], [5, 4]]"
    "pop_errors (solvers ?c ! Suc 0) = [32, 18, 8, 1]"
    unfolding example_broadcast
    by (simp_all add: example_coordinator_def example_solver2_def example_solver_def)
  from migration_write_frame[OF h(1)]
  have "solvers (migration_write 0 ?c) ! 0 = solvers ?c ! 0 \<and>
        population (solvers (migration_write 0 ?c) ! 1) = [[1, 1], [2, 2], [6, 6], [5, 4]] \<and>
        pop_errors (solvers (migration_write 0 ?c) ! 1) = [32, 18, 8, 1]"
    unfolding Let_def n by (simp add: v)
  with h show ?thesis by (intro conjI) (elim conjE, assumption)+
qed

end
